theory Spec2Isabelle
  imports Main "HOL-Library.Word"
begin

unbundle bit_operations_syntax

section \<open>The data model of \<open>sux_lock.h\<close>\<close>

text \<open>
  \<open>sux_lock<srw>\<close> is a recursive S/U/X latch on top of a non-recursive lock \<open>srw\<close>.
  The embedding is sequential: one call at a time, made by a named thread. The thread
  identifier returned by \<open>os_thread_get_curr_id()\<close> is the parameter \<open>self\<close> of every
  operation. \<open>os_thread_id_t\<close> is an unsigned long on the platforms where \<open>FOR_IO\<close> is a
  \<open>constexpr\<close>; \<open>recursive\<close> and \<open>waits\<close> are \<open>uint32_t\<close>, so their arithmetic wraps.
  The atomics are read and written in program order, and the mutex \<open>readers_lock\<close>, which
  only serialises the registry, has no counterpart. The operations are those of
  \<open>sux_lock<srw_lock_low>\<close>; the \<open>srw_lock\<close> specialisations under \<open>UNIV_PFS_RWLOCK\<close> have
  the same bodies, with a source position passed through and \<open>x_lock\<close> without \<open>for_io\<close>.
\<close>

type_synonym os_thread_id_t = "64 word"

text \<open>\<open>static constexpr os_thread_id_t FOR_IO= os_thread_id_t(~0UL)\<close>\<close>

definition FOR_IO :: os_thread_id_t where
  "FOR_IO = NOT 0"

text \<open>
  The underlying lock \<open>srw\<close> is declared in \<open>srw_lock.h\<close>, outside this file. Its state
  is modelled by the sequence of member functions that have been called on it, oldest first;
  the value a call returns is an input of the operation that makes the call.
\<close>

datatype srw_call =
    Srw_rd_lock | Srw_u_lock | Srw_wr_lock | Srw_u_wr_upgrade
  | Srw_rd_lock_try | Srw_u_lock_try | Srw_wr_lock_try
  | Srw_rd_unlock | Srw_u_unlock | Srw_wr_unlock

record sux_lock =
  lock :: "srw_call list"
  writer :: os_thread_id_t
  recursive :: "32 word"
  waits :: "32 word"
  readers :: "os_thread_id_t set option"

text \<open>
  The two compile-time switches of the file: \<open>UNIV_DEBUG\<close> enables \<open>ut_ad\<close>, \<open>ut_d\<close> and
  the \<open>readers\<close> registry; \<open>IF_DBUG(A,B)\<close> is \<open>A\<close> unless \<open>DBUG_OFF\<close> is defined. A failed
  assertion aborts the process.
\<close>

record build =
  univ_debug :: bool
  dbug :: bool

datatype error = Assertion_failure

fun seq :: "error + 'a \<Rightarrow> ('a \<Rightarrow> error + 'b) \<Rightarrow> error + 'b" where
  "seq (Inl e) f = Inl e"
| "seq (Inr x) f = f x"

definition ut_ad :: "build \<Rightarrow> bool \<Rightarrow> error + unit" where
  "ut_ad b c = (if univ_debug b \<and> \<not> c then Inl Assertion_failure else Inr ())"

definition RECURSIVE_X :: "32 word" where
  "RECURSIVE_X = 1"

definition RECURSIVE_U :: "32 word" where
  "RECURSIVE_U = push_bit 16 1"

definition RECURSIVE_MAX :: "32 word" where
  "RECURSIVE_MAX = RECURSIVE_U - 1"

text \<open>The step selected by \<open>allow_readers ? RECURSIVE_U : RECURSIVE_X\<close>.\<close>

definition recursive_step :: "bool \<Rightarrow> 32 word" where
  "recursive_step allow_readers = (if allow_readers then RECURSIVE_U else RECURSIVE_X)"

text \<open>
  The local \<open>rec\<close> of \<open>writer_recurse\<close> and \<open>u_or_x_unlock\<close>:
  \<open>(recursive / (allow_readers ? RECURSIVE_U : RECURSIVE_X)) & RECURSIVE_MAX\<close>.
\<close>

definition rec_depth :: "bool \<Rightarrow> 32 word \<Rightarrow> 32 word" where
  "rec_depth allow_readers r = (r div recursive_step allow_readers) AND RECURSIVE_MAX"

section \<open>Operations\<close>

subsection \<open>Recursion and ownership\<close>

definition writer_recurse :: "build \<Rightarrow> os_thread_id_t \<Rightarrow> bool \<Rightarrow> sux_lock \<Rightarrow> error + sux_lock" where
  "writer_recurse b self allow_readers s =
     seq (ut_ad b (writer s = self)) (\<lambda>_.
     seq (ut_ad b (if allow_readers then recursive s \<noteq> 0
                   else rec_depth allow_readers (recursive s) \<noteq> 0)) (\<lambda>_.
     seq (ut_ad b (rec_depth allow_readers (recursive s) < RECURSIVE_MAX)) (\<lambda>_.
     Inr (s\<lparr>recursive := recursive s + recursive_step allow_readers\<rparr>))))"

definition set_new_owner :: "build \<Rightarrow> os_thread_id_t \<Rightarrow> sux_lock \<Rightarrow> error + sux_lock" where
  "set_new_owner b tid s =
     (if dbug b \<and> writer s = 0 then Inl Assertion_failure else Inr (s\<lparr>writer := tid\<rparr>))"

definition set_first_owner :: "build \<Rightarrow> os_thread_id_t \<Rightarrow> sux_lock \<Rightarrow> error + sux_lock" where
  "set_first_owner b tid s =
     (if dbug b \<and> writer s \<noteq> 0 then Inl Assertion_failure else Inr (s\<lparr>writer := tid\<rparr>))"

text \<open>\<open>s_lock_register\<close> exists under \<open>UNIV_DEBUG\<close> only; \<open>ut_d\<close> guards its calls.\<close>

definition s_lock_register :: "os_thread_id_t \<Rightarrow> sux_lock \<Rightarrow> error + sux_lock" where
  "s_lock_register self s =
     (let r = (case readers s of None \<Rightarrow> {} | Some r \<Rightarrow> r) in
      if self \<in> r then Inl Assertion_failure
      else Inr (s\<lparr>readers := Some (insert self r)\<rparr>))"

definition ut_d_s_lock_register :: "build \<Rightarrow> os_thread_id_t \<Rightarrow> sux_lock \<Rightarrow> error + sux_lock" where
  "ut_d_s_lock_register b self s = (if univ_debug b then s_lock_register self s else Inr s)"

definition claim_ownership :: "build \<Rightarrow> os_thread_id_t \<Rightarrow> sux_lock \<Rightarrow> error + sux_lock" where
  "claim_ownership b self s = set_new_owner b self s"

subsection \<open>Queries\<close>

definition have_u_or_x :: "build \<Rightarrow> os_thread_id_t \<Rightarrow> sux_lock \<Rightarrow> error + bool" where
  "have_u_or_x b self s =
     (if self \<noteq> writer s then Inr False
      else seq (ut_ad b (recursive s \<noteq> 0)) (\<lambda>_. Inr True))"

definition have_u_not_x :: "build \<Rightarrow> os_thread_id_t \<Rightarrow> sux_lock \<Rightarrow> error + bool" where
  "have_u_not_x b self s =
     seq (have_u_or_x b self s) (\<lambda>h.
       Inr (h \<and> \<not> ((recursive s div RECURSIVE_X) AND RECURSIVE_MAX \<noteq> 0)))"

definition have_x :: "build \<Rightarrow> os_thread_id_t \<Rightarrow> sux_lock \<Rightarrow> error + bool" where
  "have_x b self s =
     seq (have_u_or_x b self s) (\<lambda>h.
       Inr (h \<and> (recursive s div RECURSIVE_X) AND RECURSIVE_MAX \<noteq> 0))"

text \<open>\<open>have_s\<close> exists under \<open>UNIV_DEBUG\<close> only.\<close>

definition have_s :: "os_thread_id_t \<Rightarrow> sux_lock \<Rightarrow> bool" where
  "have_s self s = (case readers s of Some r \<Rightarrow> self \<in> r | None \<Rightarrow> False)"

subsection \<open>Blocking acquisition\<close>

text \<open>
  In each blocking operation \<open>r\<close> is the value returned by the blocking call on the
  underlying lock (\<open>rd_lock<true>\<close>, \<open>u_lock\<close>, \<open>wr_lock<true>\<close>, \<open>u_wr_upgrade\<close>); it is read
  only on the path that makes the call. \<open>count_wait\<close> is the statement
  \<open>if (!r) waits.fetch_add(1, std::memory_order_relaxed)\<close>.
\<close>

definition count_wait :: "bool \<Rightarrow> sux_lock \<Rightarrow> sux_lock" where
  "count_wait r s = (if \<not> r then s\<lparr>waits := waits s + 1\<rparr> else s)"

definition srw :: "srw_call \<Rightarrow> sux_lock \<Rightarrow> sux_lock" where
  "srw c s = s\<lparr>lock := lock s @ [c]\<rparr>"

definition s_lock :: "build \<Rightarrow> os_thread_id_t \<Rightarrow> bool \<Rightarrow> sux_lock \<Rightarrow> error + sux_lock" where
  "s_lock b self r s =
     seq (if univ_debug b then seq (have_x b self s) (\<lambda>hx. ut_ad b (\<not> hx)) else Inr ()) (\<lambda>_.
     seq (ut_ad b (\<not> have_s self s)) (\<lambda>_.
     ut_d_s_lock_register b self (count_wait r (srw Srw_rd_lock s))))"

definition u_lock :: "build \<Rightarrow> os_thread_id_t \<Rightarrow> bool \<Rightarrow> sux_lock \<Rightarrow> error + sux_lock" where
  "u_lock b self r s =
     (if writer s = self then writer_recurse b self True s
      else let s1 = count_wait r (srw Srw_u_lock s) in
        seq (ut_ad b (recursive s1 = 0)) (\<lambda>_.
        set_first_owner b self (s1\<lparr>recursive := RECURSIVE_U\<rparr>)))"

definition x_lock :: "build \<Rightarrow> os_thread_id_t \<Rightarrow> bool \<Rightarrow> bool \<Rightarrow> sux_lock \<Rightarrow> error + sux_lock" where
  "x_lock b self for_io r s =
     (if writer s = self then
        seq (ut_ad b (\<not> for_io)) (\<lambda>_. writer_recurse b self False s)
      else let s1 = count_wait r (srw Srw_wr_lock s) in
        seq (ut_ad b (recursive s1 = 0)) (\<lambda>_.
        set_first_owner b (if for_io then FOR_IO else self) (s1\<lparr>recursive := RECURSIVE_X\<rparr>)))"

definition x_lock_recursive :: "build \<Rightarrow> os_thread_id_t \<Rightarrow> sux_lock \<Rightarrow> error + sux_lock" where
  "x_lock_recursive b self s = writer_recurse b self False s"

definition u_x_upgrade :: "build \<Rightarrow> os_thread_id_t \<Rightarrow> bool \<Rightarrow> sux_lock \<Rightarrow> error + sux_lock" where
  "u_x_upgrade b self r s =
     seq (if univ_debug b then seq (have_u_not_x b self s) (\<lambda>h. ut_ad b h) else Inr ()) (\<lambda>_.
     let s1 = count_wait r (srw Srw_u_wr_upgrade s) in
     Inr (s1\<lparr>recursive := recursive s1 div RECURSIVE_U\<rparr>))"

text \<open>\<open>x_lock_upgraded\<close> discards what \<open>u_wr_upgrade\<close> and \<open>wr_lock<true>\<close> return.\<close>

definition x_lock_upgraded :: "build \<Rightarrow> os_thread_id_t \<Rightarrow> sux_lock \<Rightarrow> error + (bool \<times> sux_lock)" where
  "x_lock_upgraded b self s =
     (if writer s = self then
        seq (ut_ad b (recursive s \<noteq> 0)) (\<lambda>_.
        if recursive s AND RECURSIVE_MAX \<noteq> 0 then
          seq (writer_recurse b self False s) (\<lambda>s1. Inr (False, s1))
        else
          let s1 = srw Srw_u_wr_upgrade s in
          Inr (True, s1\<lparr>recursive := recursive s1 div RECURSIVE_U\<rparr>))
      else
        let s1 = srw Srw_wr_lock s in
        seq (ut_ad b (recursive s1 = 0)) (\<lambda>_.
        seq (set_first_owner b self (s1\<lparr>recursive := RECURSIVE_X\<rparr>)) (\<lambda>s2.
        Inr (False, s2))))"

subsection \<open>Non-blocking acquisition\<close>

text \<open>\<open>acquired\<close> is the value returned by the \<open>_try\<close> call on the underlying lock.\<close>

definition s_lock_try :: "build \<Rightarrow> os_thread_id_t \<Rightarrow> bool \<Rightarrow> sux_lock \<Rightarrow> error + (bool \<times> sux_lock)" where
  "s_lock_try b self acquired s =
     (let s1 = srw Srw_rd_lock_try s in
      seq (if acquired then ut_d_s_lock_register b self s1 else Inr s1) (\<lambda>s2.
      Inr (acquired, s2)))"

definition u_lock_try :: "build \<Rightarrow> os_thread_id_t \<Rightarrow> bool \<Rightarrow> bool \<Rightarrow> sux_lock \<Rightarrow> error + (bool \<times> sux_lock)" where
  "u_lock_try b self for_io acquired s =
     (if writer s = self then
        (if for_io then Inr (False, s)
         else seq (writer_recurse b self True s) (\<lambda>s1. Inr (True, s1)))
      else let s1 = srw Srw_u_lock_try s in
        if acquired then
          seq (ut_ad b (recursive s1 = 0)) (\<lambda>_.
          seq (set_first_owner b (if for_io then FOR_IO else self) (s1\<lparr>recursive := RECURSIVE_U\<rparr>)) (\<lambda>s2.
          Inr (True, s2)))
        else Inr (False, s1))"

definition x_lock_try :: "build \<Rightarrow> os_thread_id_t \<Rightarrow> bool \<Rightarrow> sux_lock \<Rightarrow> error + (bool \<times> sux_lock)" where
  "x_lock_try b self acquired s =
     (if writer s = self then
        seq (writer_recurse b self False s) (\<lambda>s1. Inr (True, s1))
      else let s1 = srw Srw_wr_lock_try s in
        if acquired then
          seq (ut_ad b (recursive s1 = 0)) (\<lambda>_.
          seq (set_first_owner b self (s1\<lparr>recursive := RECURSIVE_X\<rparr>)) (\<lambda>s2.
          Inr (True, s2)))
        else Inr (False, s1))"

subsection \<open>Release\<close>

definition s_unlock :: "build \<Rightarrow> os_thread_id_t \<Rightarrow> sux_lock \<Rightarrow> error + sux_lock" where
  "s_unlock b self s =
     seq (if univ_debug b then
            (case readers s of
               None \<Rightarrow> Inl Assertion_failure
             | Some r \<Rightarrow> if self \<in> r then Inr (s\<lparr>readers := Some (r - {self})\<rparr>)
                         else Inl Assertion_failure)
          else Inr s) (\<lambda>s1.
     Inr (srw Srw_rd_unlock s1))"

text \<open>The parameter \<open>claim\<close> is \<open>claim_ownership\<close> in the source.\<close>

definition u_or_x_unlock :: "build \<Rightarrow> os_thread_id_t \<Rightarrow> bool \<Rightarrow> bool \<Rightarrow> sux_lock \<Rightarrow> error + sux_lock" where
  "u_or_x_unlock b self allow_readers claim s =
     seq (ut_ad b (writer s = self \<or>
                   (writer s = FOR_IO \<and> claim \<and>
                    recursive s = recursive_step allow_readers))) (\<lambda>_.
     seq (ut_ad b (rec_depth allow_readers (recursive s) \<noteq> 0)) (\<lambda>_.
     let s1 = s\<lparr>recursive := recursive s - recursive_step allow_readers\<rparr> in
     if recursive s1 = 0 then
       seq (set_new_owner b 0 s1) (\<lambda>s2.
       Inr (srw (if allow_readers then Srw_u_unlock else Srw_wr_unlock) s2))
     else Inr s1))"

definition u_unlock :: "build \<Rightarrow> os_thread_id_t \<Rightarrow> bool \<Rightarrow> sux_lock \<Rightarrow> error + sux_lock" where
  "u_unlock b self claim s = u_or_x_unlock b self True claim s"

definition x_unlock :: "build \<Rightarrow> os_thread_id_t \<Rightarrow> bool \<Rightarrow> sux_lock \<Rightarrow> error + sux_lock" where
  "x_unlock b self claim s = u_or_x_unlock b self False claim s"

section \<open>Clients\<close>

text \<open>
  The lock as \<open>SRW_LOCK_INIT\<close> expects to find it: every field zero, no reader registry.
\<close>

definition sux_lock_init :: sux_lock where
  "sux_lock_init = \<lparr>lock = [], writer = 0, recursive = 0, waits = 0, readers = None\<rparr>"

definition release_build :: build where
  "release_build = \<lparr>univ_debug = False, dbug = False\<rparr>"

definition debug_build :: build where
  "debug_build = \<lparr>univ_debug = True, dbug = True\<rparr>"

text \<open>
  A call of the public interface, with the arguments the caller passes and the value that the
  underlying lock returns to it. \<open>X_lock for_io r\<close>, \<open>U_lock_try for_io acquired\<close>.
\<close>

datatype call =
    S_lock bool | U_lock bool | X_lock bool bool | X_lock_recursive
  | U_x_upgrade bool | X_lock_upgraded
  | S_lock_try bool | U_lock_try bool bool | X_lock_try bool
  | S_unlock | U_unlock bool | X_unlock bool
  | Claim_ownership

fun exec :: "build \<Rightarrow> os_thread_id_t \<Rightarrow> call \<Rightarrow> sux_lock \<Rightarrow> error + sux_lock" where
  "exec b self (S_lock r) s = s_lock b self r s"
| "exec b self (U_lock r) s = u_lock b self r s"
| "exec b self (X_lock for_io r) s = x_lock b self for_io r s"
| "exec b self X_lock_recursive s = x_lock_recursive b self s"
| "exec b self (U_x_upgrade r) s = u_x_upgrade b self r s"
| "exec b self X_lock_upgraded s = seq (x_lock_upgraded b self s) (\<lambda>(_, s'). Inr s')"
| "exec b self (S_lock_try a) s = seq (s_lock_try b self a s) (\<lambda>(_, s'). Inr s')"
| "exec b self (U_lock_try for_io a) s = seq (u_lock_try b self for_io a s) (\<lambda>(_, s'). Inr s')"
| "exec b self (X_lock_try a) s = seq (x_lock_try b self a s) (\<lambda>(_, s'). Inr s')"
| "exec b self S_unlock s = s_unlock b self s"
| "exec b self (U_unlock claim) s = u_unlock b self claim s"
| "exec b self (X_unlock claim) s = x_unlock b self claim s"
| "exec b self Claim_ownership s = claim_ownership b self s"

text \<open>
  A schedule: calls made one after the other, each by the thread named with it. The first
  failed assertion ends the run.
\<close>

fun run :: "build \<Rightarrow> (os_thread_id_t \<times> call) list \<Rightarrow> sux_lock \<Rightarrow> error + sux_lock" where
  "run b [] s = Inr s"
| "run b ((self, c) # cs) s = seq (exec b self c s) (run b cs)"

text \<open>
  The lock after thread 1 has taken it once, in U mode and in X mode, on a zero-initialised
  lock whose blocking call returned true.
\<close>

definition u_held :: sux_lock where
  "u_held = \<lparr>lock = [Srw_u_lock], writer = 1, recursive = 0x10000, waits = 0, readers = None\<rparr>"

definition x_held :: sux_lock where
  "x_held = \<lparr>lock = [Srw_wr_lock], writer = 1, recursive = 1, waits = 0, readers = None\<rparr>"

section \<open>The notions of the specification\<close>

text \<open>
  The two packed counters as the specification names them:
  \<open>x_depth = recursive mod 2^16\<close> and \<open>u_depth = recursive div 2^16\<close>.
\<close>

definition x_depth :: "32 word \<Rightarrow> nat" where
  "x_depth r = unat r mod 2 ^ 16"

definition u_depth :: "32 word \<Rightarrow> nat" where
  "u_depth r = unat r div 2 ^ 16"

text \<open>The state invariant \<open>recursive > 0 \<Leftrightarrow> writer != 0\<close>.\<close>

definition owner_inv :: "sux_lock \<Rightarrow> bool" where
  "owner_inv s = (0 < recursive s \<longleftrightarrow> writer s \<noteq> 0)"


section \<open>Arithmetic of the packed counters\<close>

lemma RECURSIVE_U_eq: "RECURSIVE_U = 0x10000"
  by (simp add: RECURSIVE_U_def)

lemma RECURSIVE_MAX_eq: "RECURSIVE_MAX = 0xFFFF"
  by (simp add: RECURSIVE_MAX_def RECURSIVE_U_def)

lemma RECURSIVE_MAX_mask: "RECURSIVE_MAX = mask 16"
  by (simp add: RECURSIVE_MAX_def RECURSIVE_U_def mask_eq_exp_minus_1)

lemma unat_lt: "unat (r :: 32 word) < 4294967296"
  using unsigned_less [of r, where 'a = nat] by simp

text \<open>The \<open>rec\<close> of the source is the depth of the specification.\<close>

lemma unat_rec_depth_U: "unat (rec_depth True r) = u_depth r"
proof -
  have "unat r div 65536 < 65536"
    using unat_lt [of r] by simp
  then show ?thesis
    by (simp add: rec_depth_def recursive_step_def RECURSIVE_MAX_mask RECURSIVE_U_eq
        u_depth_def unat_div unat_mod unsigned_take_bit_eq take_bit_eq_mod
        flip: take_bit_eq_mask)
qed

lemma unat_rec_depth_X: "unat (rec_depth False r) = x_depth r"
  by (simp add: rec_depth_def recursive_step_def RECURSIVE_MAX_mask RECURSIVE_X_def
      x_depth_def unat_mod unsigned_take_bit_eq take_bit_eq_mod flip: take_bit_eq_mask)

lemma unat_add_U: "u_depth r < 65535 \<Longrightarrow> unat (r + RECURSIVE_U) = unat r + 65536"
  by (simp add: u_depth_def RECURSIVE_U_eq unat_word_ariths)

lemma unat_sub_U: "1 \<le> u_depth r \<Longrightarrow> unat (r - RECURSIVE_U) = unat r - 65536"
  by (simp add: u_depth_def RECURSIVE_U_eq unat_sub_if')

lemma unat_add_X:
  assumes "x_depth r < 65535"
  shows "unat (r + RECURSIVE_X) = unat r + 1"
proof -
  from assms have "unat r \<noteq> 4294967295"
    by (auto simp: x_depth_def)
  then have "unat r + 1 < 4294967296"
    using unat_lt [of r] by linarith
  then show ?thesis
    by (simp add: RECURSIVE_X_def unat_word_ariths)
qed

lemma unat_sub_X: "1 \<le> x_depth r \<Longrightarrow> unat (r - RECURSIVE_X) = unat r - 1"
  by (auto simp add: x_depth_def RECURSIVE_X_def unat_sub_if')

lemma nat_sub_div:
  assumes "k \<le> n" "0 < k"
  shows "(n - k) div k = n div k - 1 \<and> (n - k) mod k = n mod (k::nat)"
proof -
  from assms obtain m where m: "n = m + k"
    using le_Suc_ex [of k n] by (auto simp: add.commute)
  have "(m + k) div k = m div k + 1"
    using assms(2) by (simp add: div_add_self2)
  then show ?thesis
    unfolding m using assms(2) by simp
qed

lemma nat_suc_mod:
  "n mod k < k - 1 \<Longrightarrow> Suc n mod k = Suc (n mod k) \<and> Suc n div k = n div (k::nat)"
  by (auto simp add: mod_Suc div_Suc)

lemma nat_pred_mod:
  assumes "1 \<le> n mod k"
  shows "(n - 1) mod k = n mod k - 1 \<and> (n - 1) div k = n div (k::nat)"
proof -
  from assms obtain m where m: "n = Suc m"
    by (cases n) auto
  have "Suc m mod k \<noteq> 0"
    using assms m by simp
  then show ?thesis
    unfolding m by (auto simp add: mod_Suc div_Suc split: if_splits)
qed

text \<open>Neither counter carries into the other inside its bounds.\<close>

lemma packed_counter_steps:
  "(u_depth r < 65535 \<longrightarrow>
      u_depth (r + RECURSIVE_U) = u_depth r + 1 \<and> x_depth (r + RECURSIVE_U) = x_depth r) \<and>
   (1 \<le> u_depth r \<longrightarrow>
      u_depth (r - RECURSIVE_U) = u_depth r - 1 \<and> x_depth (r - RECURSIVE_U) = x_depth r) \<and>
   (x_depth r < 65535 \<longrightarrow>
      x_depth (r + RECURSIVE_X) = x_depth r + 1 \<and> u_depth (r + RECURSIVE_X) = u_depth r) \<and>
   (1 \<le> x_depth r \<longrightarrow>
      x_depth (r - RECURSIVE_X) = x_depth r - 1 \<and> u_depth (r - RECURSIVE_X) = u_depth r)"
proof (intro conjI impI)
  assume h: "u_depth r < 65535"
  show "u_depth (r + RECURSIVE_U) = u_depth r + 1" "x_depth (r + RECURSIVE_U) = x_depth r"
    using unat_add_U [OF h] by (simp_all add: u_depth_def x_depth_def)
next
  assume h: "1 \<le> u_depth r"
  then have g: "65536 \<le> unat r"
    by (simp add: u_depth_def)
  show "u_depth (r - RECURSIVE_U) = u_depth r - 1"
    using unat_sub_U [OF h] nat_sub_div [OF g] by (simp add: u_depth_def)
  show "x_depth (r - RECURSIVE_U) = x_depth r"
    using unat_sub_U [OF h] nat_sub_div [OF g] by (simp add: x_depth_def)
next
  assume h: "x_depth r < 65535"
  then have g: "unat r mod 65536 < 65536 - 1"
    by (simp add: x_depth_def)
  show "x_depth (r + RECURSIVE_X) = x_depth r + 1"
    using unat_add_X [OF h] nat_suc_mod [OF g] by (simp add: x_depth_def)
  show "u_depth (r + RECURSIVE_X) = u_depth r"
    using unat_add_X [OF h] nat_suc_mod [OF g] by (simp add: u_depth_def)
next
  assume h: "1 \<le> x_depth r"
  then have g: "1 \<le> unat r mod 65536"
    by (simp add: x_depth_def)
  show "x_depth (r - RECURSIVE_X) = x_depth r - 1"
    using unat_sub_X [OF h] nat_pred_mod [OF g] by (simp add: x_depth_def)
  show "u_depth (r - RECURSIVE_X) = u_depth r"
    using unat_sub_X [OF h] nat_pred_mod [OF g] by (simp add: u_depth_def)
qed


lemma unat_RECURSIVE_MAX: "unat RECURSIVE_MAX = 65535"
  by (simp add: RECURSIVE_MAX_eq)

lemma rec_depth_U_lt: "rec_depth True r < RECURSIVE_MAX \<longleftrightarrow> u_depth r < 65535"
  by (simp add: word_less_nat_alt unat_rec_depth_U unat_RECURSIVE_MAX)

lemma rec_depth_X_lt: "rec_depth False r < RECURSIVE_MAX \<longleftrightarrow> x_depth r < 65535"
  by (simp add: word_less_nat_alt unat_rec_depth_X unat_RECURSIVE_MAX)

lemma rec_depth_U_0: "rec_depth True r = 0 \<longleftrightarrow> u_depth r = 0"
  using unat_rec_depth_U [of r] by (simp add: unat_eq_0 [symmetric] del: unat_eq_0)

lemma rec_depth_X_0: "rec_depth False r = 0 \<longleftrightarrow> x_depth r = 0"
  using unat_rec_depth_X [of r] by (simp add: unat_eq_0 [symmetric] del: unat_eq_0)

lemma x_bits_0: "r AND RECURSIVE_MAX = 0 \<longleftrightarrow> x_depth r = 0"
  using rec_depth_X_0 [of r] by (simp add: rec_depth_def recursive_step_def RECURSIVE_X_def)

lemma x_bits_div_0: "(r div RECURSIVE_X) AND RECURSIVE_MAX = 0 \<longleftrightarrow> x_depth r = 0"
  using rec_depth_X_0 [of r] by (simp add: rec_depth_def recursive_step_def)

lemma recursive_0_depths: "r = 0 \<longleftrightarrow> u_depth r = 0 \<and> x_depth r = 0"
proof -
  have "unat r = 0 \<longleftrightarrow> unat r div 65536 = 0 \<and> unat r mod 65536 = 0"
    by auto
  then show ?thesis
    by (simp add: u_depth_def x_depth_def unat_eq_0 [symmetric] del: unat_eq_0)
qed

text \<open>The upgrade \<open>recursive /= RECURSIVE_U\<close> moves the U depth into the X depth.\<close>

lemma depths_div_U: "x_depth (r div RECURSIVE_U) = u_depth r \<and> u_depth (r div RECURSIVE_U) = 0"
proof -
  have "unat r div 65536 < 65536"
    using unat_lt [of r] by simp
  then show ?thesis
    by (simp add: x_depth_def u_depth_def unat_div RECURSIVE_U_eq)
qed

section \<open>The operations on the owner's path\<close>

lemmas base_defs = ut_ad_def set_new_owner_def set_first_owner_def srw_def count_wait_def

lemma u_or_x_unlock_owner:
  assumes "writer s = self" "self \<noteq> 0" "rec_depth ar (recursive s) \<noteq> 0"
  shows "u_or_x_unlock b self ar cl s =
    Inr (if recursive s = recursive_step ar
         then (s\<lparr>recursive := 0, writer := 0,
                 lock := lock s @ [if ar then Srw_u_unlock else Srw_wr_unlock]\<rparr>)
         else s\<lparr>recursive := recursive s - recursive_step ar\<rparr>)"
  using assms by (simp add: u_or_x_unlock_def base_defs Let_def)

lemma depth_RECURSIVE_U: "u_depth RECURSIVE_U = 1" "x_depth RECURSIVE_U = 0"
  by (simp_all add: u_depth_def x_depth_def RECURSIVE_U_eq)

lemma depth_RECURSIVE_X: "u_depth RECURSIVE_X = 0" "x_depth RECURSIVE_X = 1"
  by (simp_all add: u_depth_def x_depth_def RECURSIVE_X_def)

lemma writer_recurse_U:
  assumes "writer s = self"
    "univ_debug b \<longrightarrow> recursive s \<noteq> 0 \<and> u_depth (recursive s) < 65535"
  shows "writer_recurse b self True s = Inr (s\<lparr>recursive := recursive s + RECURSIVE_U\<rparr>)"
  using assms by (simp add: writer_recurse_def ut_ad_def rec_depth_U_lt recursive_step_def)

lemma writer_recurse_X:
  assumes "writer s = self"
    "univ_debug b \<longrightarrow> 0 < x_depth (recursive s) \<and> x_depth (recursive s) < 65535"
  shows "writer_recurse b self False s = Inr (s\<lparr>recursive := recursive s + RECURSIVE_X\<rparr>)"
  using assms
  by (simp add: writer_recurse_def ut_ad_def rec_depth_X_lt rec_depth_X_0 recursive_step_def)

section \<open>Every operation, case by case\<close>

lemmas op_defs = s_lock_def u_lock_def x_lock_def x_lock_recursive_def u_x_upgrade_def
  x_lock_upgraded_def s_lock_try_def u_lock_try_def x_lock_try_def s_unlock_def
  u_or_x_unlock_def u_unlock_def x_unlock_def claim_ownership_def writer_recurse_def
  ut_d_s_lock_register_def s_lock_register_def have_x_def have_u_not_x_def have_u_or_x_def

lemma seq_Inr_iff: "seq m f = Inr y \<longleftrightarrow> (\<exists>x. m = Inr x \<and> f x = Inr y)"
  by (cases m) auto

lemma ut_ad_Inr_iff: "ut_ad b c = Inr u \<longleftrightarrow> (univ_debug b \<longrightarrow> c)"
  by (auto simp: ut_ad_def)

lemma FOR_IO_neq_0: "FOR_IO \<noteq> 0"
  by (simp add: FOR_IO_def)

lemma owner_inv_iff: "owner_inv s \<longleftrightarrow> (recursive s = 0 \<longleftrightarrow> writer s = 0)"
  by (auto simp: owner_inv_def word_gt_0)

lemma add_U_nonzero: "rec_depth True r < RECURSIVE_MAX \<Longrightarrow> r + RECURSIVE_U \<noteq> 0"
  using packed_counter_steps [of r] recursive_0_depths [of "r + RECURSIVE_U"]
  by (simp add: rec_depth_U_lt)

lemma add_X_nonzero: "rec_depth False r < RECURSIVE_MAX \<Longrightarrow> r + RECURSIVE_X \<noteq> 0"
  using packed_counter_steps [of r] recursive_0_depths [of "r + RECURSIVE_X"]
  by (simp add: rec_depth_X_lt)

lemma div_U_nonzero: "r \<noteq> 0 \<Longrightarrow> x_depth r = 0 \<Longrightarrow> r div RECURSIVE_U \<noteq> 0"
  using depths_div_U [of r] recursive_0_depths [of r] recursive_0_depths [of "r div RECURSIVE_U"]
  by simp

lemma rec_depth_nonzero: "rec_depth ar r \<noteq> 0 \<Longrightarrow> r \<noteq> 0"
  by (auto simp: rec_depth_def)

text \<open>
  A call that passes every assertion of the debug build does the same in any other build,
  where only the reader registry can be missing.
\<close>

lemma exec_debug_build_readers:
  assumes "exec debug_build self c s = Inr t"
  shows "exec b self c (s\<lparr>readers := (if univ_debug b then readers s else r0)\<rparr>) =
    Inr (t\<lparr>readers := (if univ_debug b then readers t else r0)\<rparr>)"
  using assms
  by (cases c)
    (auto simp: op_defs base_defs seq_Inr_iff ut_ad_Inr_iff Let_def debug_build_def have_s_def
      split: if_splits option.splits)

lemma exec_debug_build:
  assumes "exec debug_build self c s = Inr t"
  shows "exec b self c s = Inr (t\<lparr>readers := (if univ_debug b then readers t else readers s)\<rparr>)"
  using exec_debug_build_readers [OF assms, of b "readers s"] by simp

lemma exec_debug_owner_inv:
  assumes "owner_inv s" "self \<noteq> 0" "exec debug_build self c s = Inr t"
  shows "owner_inv t"
  using assms
  by (cases c)
    (auto simp: op_defs base_defs seq_Inr_iff ut_ad_Inr_iff Let_def debug_build_def
      owner_inv_iff FOR_IO_neq_0 RECURSIVE_U_eq RECURSIVE_X_def x_bits_0 x_bits_div_0
      recursive_step_def
      dest: add_U_nonzero add_X_nonzero div_U_nonzero rec_depth_nonzero
      split: if_splits option.splits)

text \<open>
  The bound that \<open>writer_recurse\<close> asserts is not checked without \<open>UNIV_DEBUG\<close>: there a
  U acquisition at depth 65535 wraps \<open>recursive\<close> to 0 and leaves \<open>writer\<close> set.
\<close>

lemma u_lock_beyond_RECURSIVE_MAX:
  "u_lock debug_build 1 True (u_held\<lparr>recursive := 0xFFFF0000\<rparr>) = Inl Assertion_failure"
  "u_lock release_build 1 True (u_held\<lparr>recursive := 0xFFFF0000\<rparr>) =
     Inr (u_held\<lparr>recursive := 0\<rparr>)"
  by (simp_all add: u_lock_def writer_recurse_def rec_depth_def recursive_step_def
      RECURSIVE_MAX_eq RECURSIVE_U_eq ut_ad_def debug_build_def release_build_def u_held_def)

lemma u_or_x_unlock_writer:
  assumes "u_or_x_unlock b self ar cl s = Inr u"
  shows "recursive u = recursive s - recursive_step ar \<and>
    (recursive u = 0 \<longrightarrow> writer u = 0) \<and> (recursive u \<noteq> 0 \<longrightarrow> writer u = writer s)"
  using assms
  by (auto simp: u_or_x_unlock_def base_defs seq_Inr_iff Let_def split: if_splits)

lemma sentinel_only_x_lock_u_lock_try:
  assumes "self \<noteq> FOR_IO" "writer s \<noteq> FOR_IO" "exec b self c s = Inr s'" "writer s' = FOR_IO"
  shows "writer s \<noteq> self \<and> ((\<exists>r. c = X_lock True r) \<or> c = U_lock_try True True)"
  using assms
  by (cases c)
    (auto simp: op_defs base_defs seq_Inr_iff ut_ad_Inr_iff Let_def FOR_IO_neq_0
      split: if_splits option.splits)

section \<open>Schedules\<close>

lemma seq_assoc: "seq (seq m f) g = seq m (\<lambda>x. seq (f x) g)"
  by (cases m) auto

lemma run_append: "run b (xs @ ys) s = seq (run b xs s) (run b ys)"
proof (induction xs arbitrary: s)
  case Nil
  show ?case by simp
next
  case (Cons a xs)
  obtain self c where a: "a = (self, c)"
    by (cases a)
  show ?case
    by (cases "exec b self c s") (simp_all add: a Cons.IH)
qed

lemma u_lock_first:
  assumes "writer s = 0" "recursive s = 0" "self \<noteq> 0"
  shows "\<exists>s'. u_lock b self r s = Inr s' \<and> writer s' = self \<and> recursive s' = RECURSIVE_U \<and>
    lock s' = lock s @ [Srw_u_lock]"
  using assms by (cases r) (auto simp: u_lock_def base_defs)

lemma x_lock_first:
  assumes "writer s = 0" "recursive s = 0" "self \<noteq> 0"
  shows "\<exists>s'. x_lock b self False r s = Inr s' \<and> writer s' = self \<and> recursive s' = RECURSIVE_X \<and>
    lock s' = lock s @ [Srw_wr_lock]"
  using assms by (cases r) (auto simp: x_lock_def base_defs)

lemma u_held_reached: "exec b 1 (U_lock True) sux_lock_init = Inr u_held"
  by (simp add: u_lock_def base_defs sux_lock_init_def u_held_def RECURSIVE_U_eq)

lemma x_held_reached: "exec b 1 (X_lock False True) sux_lock_init = Inr x_held"
  by (simp add: x_lock_def base_defs sux_lock_init_def x_held_def RECURSIVE_X_def)

lemma run_u_lock_recursive:
  assumes "writer s = self" "1 \<le> u_depth (recursive s)"
    "u_depth (recursive s) + length rs \<le> 65535"
  shows "\<exists>s'. run b (map (Pair self) (map U_lock rs)) s = Inr s' \<and> writer s' = self \<and>
    u_depth (recursive s') = u_depth (recursive s) + length rs \<and>
    x_depth (recursive s') = x_depth (recursive s) \<and> lock s' = lock s"
  using assms
proof (induction rs arbitrary: s)
  case Nil
  then show ?case by simp
next
  case (Cons r rs)
  let ?s1 = "s\<lparr>recursive := recursive s + RECURSIVE_U\<rparr>"
  from Cons.prems have lt: "u_depth (recursive s) < 65535" and nz: "recursive s \<noteq> 0"
    by (auto simp: recursive_0_depths)
  then have step: "u_lock b self r s = Inr ?s1"
    using Cons.prems(1) by (simp add: u_lock_def writer_recurse_U)
  have d: "u_depth (recursive ?s1) = u_depth (recursive s) + 1"
    "x_depth (recursive ?s1) = x_depth (recursive s)"
    using packed_counter_steps [of "recursive s"] lt by simp_all
  have "\<exists>s'. run b (map (Pair self) (map U_lock rs)) ?s1 = Inr s' \<and> writer s' = self \<and>
    u_depth (recursive s') = u_depth (recursive ?s1) + length rs \<and>
    x_depth (recursive s') = x_depth (recursive ?s1) \<and> lock s' = lock ?s1"
    using Cons.prems d by (intro Cons.IH) simp_all
  then show ?case
    using step d by auto
qed

lemma run_x_lock_recursive:
  assumes "writer s = self" "1 \<le> x_depth (recursive s)"
    "x_depth (recursive s) + length rs \<le> 65535"
  shows "\<exists>s'. run b (map (Pair self) (map (X_lock False) rs)) s = Inr s' \<and> writer s' = self \<and>
    x_depth (recursive s') = x_depth (recursive s) + length rs \<and>
    u_depth (recursive s') = u_depth (recursive s) \<and> lock s' = lock s"
  using assms
proof (induction rs arbitrary: s)
  case Nil
  then show ?case by simp
next
  case (Cons r rs)
  let ?s1 = "s\<lparr>recursive := recursive s + RECURSIVE_X\<rparr>"
  from Cons.prems have lt: "x_depth (recursive s) < 65535" and nz: "0 < x_depth (recursive s)"
    by auto
  then have step: "x_lock b self False r s = Inr ?s1"
    using Cons.prems(1) by (simp add: x_lock_def writer_recurse_X ut_ad_def)
  have d: "x_depth (recursive ?s1) = x_depth (recursive s) + 1"
    "u_depth (recursive ?s1) = u_depth (recursive s)"
    using packed_counter_steps [of "recursive s"] lt by simp_all
  have "\<exists>s'. run b (map (Pair self) (map (X_lock False) rs)) ?s1 = Inr s' \<and> writer s' = self \<and>
    x_depth (recursive s') = x_depth (recursive ?s1) + length rs \<and>
    u_depth (recursive s') = u_depth (recursive ?s1) \<and> lock s' = lock ?s1"
    using Cons.prems d by (intro Cons.IH) simp_all
  then show ?case
    using step d by auto
qed

lemma u_x_upgrade_pure_U:
  assumes "writer s = self" "x_depth (recursive s) = 0" "1 \<le> u_depth (recursive s)"
  shows "\<exists>s'. u_x_upgrade b self r s = Inr s' \<and> writer s' = self \<and>
    recursive s' = recursive s div RECURSIVE_U \<and> lock s' = lock s @ [Srw_u_wr_upgrade]"
proof -
  from assms have "recursive s \<noteq> 0"
    by (auto simp: recursive_0_depths)
  then show ?thesis
    using assms
    by (cases r)
      (auto simp: u_x_upgrade_def have_u_not_x_def have_u_or_x_def base_defs x_bits_div_0)
qed

lemma x_unlock_owner:
  assumes "writer s = self" "self \<noteq> 0" "1 \<le> x_depth (recursive s)"
  shows "\<exists>s'. x_unlock b self cl s = Inr s' \<and>
    x_depth (recursive s') = x_depth (recursive s) - 1 \<and>
    u_depth (recursive s') = u_depth (recursive s) \<and>
    (if recursive s' = 0 then writer s' = 0 \<and> lock s' = lock s @ [Srw_wr_unlock]
     else writer s' = self \<and> lock s' = lock s)"
proof -
  from assms(3) have "rec_depth False (recursive s) \<noteq> 0"
    by (simp add: rec_depth_X_0)
  from u_or_x_unlock_owner [OF assms(1,2) this, of b cl]
  have "x_unlock b self cl s = Inr (if recursive s = RECURSIVE_X
         then (s\<lparr>recursive := 0, writer := 0, lock := lock s @ [Srw_wr_unlock]\<rparr>)
         else s\<lparr>recursive := recursive s - RECURSIVE_X\<rparr>)"
    by (simp add: x_unlock_def recursive_step_def)
  moreover have "recursive s = RECURSIVE_X \<Longrightarrow> recursive s - RECURSIVE_X = 0"
    by simp
  ultimately show ?thesis
    using packed_counter_steps [of "recursive s"] assms
    by (cases "recursive s = RECURSIVE_X") auto
qed

lemma run_x_unlock:
  assumes "writer s = self" "self \<noteq> 0" "u_depth (recursive s) = 0" "j \<le> x_depth (recursive s)"
  shows "\<exists>s'. run b (replicate j (self, X_unlock False)) s = Inr s' \<and>
    u_depth (recursive s') = 0 \<and> x_depth (recursive s') = x_depth (recursive s) - j \<and>
    (if 0 < j \<and> j = x_depth (recursive s)
     then writer s' = 0 \<and> lock s' = lock s @ [Srw_wr_unlock]
     else writer s' = self \<and> lock s' = lock s)"
  using assms
proof (induction j arbitrary: s)
  case 0
  then show ?case by simp
next
  case (Suc j)
  from Suc.prems have "1 \<le> x_depth (recursive s)"
    by simp
  from x_unlock_owner [OF Suc.prems(1,2) this, of b False]
  obtain s1 where s1: "x_unlock b self False s = Inr s1"
    "x_depth (recursive s1) = x_depth (recursive s) - 1"
    "u_depth (recursive s1) = u_depth (recursive s)"
    "if recursive s1 = 0 then writer s1 = 0 \<and> lock s1 = lock s @ [Srw_wr_unlock]
     else writer s1 = self \<and> lock s1 = lock s"
    by blast
  show ?case
  proof (cases "recursive s1 = 0")
    case True
    then have "x_depth (recursive s) = 1"
      using s1(2) Suc.prems(4) by (simp add: recursive_0_depths)
    then have "j = 0"
      using Suc.prems(4) by simp
    then show ?thesis
      using s1 True \<open>x_depth (recursive s) = 1\<close> by (simp add: recursive_0_depths)
  next
    case False
    then have w: "writer s1 = self" "lock s1 = lock s"
      using s1(4) by simp_all
    have "j \<le> x_depth (recursive s1)" "u_depth (recursive s1) = 0"
      using s1(2,3) Suc.prems(3,4) by simp_all
    from Suc.IH [OF w(1) Suc.prems(2) this(2,1)]
    obtain s' where s': "run b (replicate j (self, X_unlock False)) s1 = Inr s'"
      "u_depth (recursive s') = 0" "x_depth (recursive s') = x_depth (recursive s1) - j"
      "if 0 < j \<and> j = x_depth (recursive s1)
       then writer s' = 0 \<and> lock s' = lock s1 @ [Srw_wr_unlock]
       else writer s' = self \<and> lock s' = lock s1"
      by blast
    have "0 < x_depth (recursive s1)"
      using False s1(3) Suc.prems(3) by (simp add: recursive_0_depths)
    then show ?thesis
      using s1(1,2) s' w Suc.prems(4) by (auto split: if_splits)
  qed
qed

lemma u_chain:
  assumes "self \<noteq> 0" "1 \<le> k" "k \<le> 65535" "length rs = k" "writer s = 0" "recursive s = 0"
    "j \<le> k"
  shows "\<exists>s'. run b (map (Pair self)
            (map U_lock rs @ U_x_upgrade r # replicate j (X_unlock False))) s = Inr s' \<and>
    u_depth (recursive s') = 0 \<and> x_depth (recursive s') = k - j \<and>
    (if j = k then writer s' = 0 \<and>
        lock s' = lock s @ [Srw_u_lock, Srw_u_wr_upgrade, Srw_wr_unlock]
     else writer s' = self \<and> lock s' = lock s @ [Srw_u_lock, Srw_u_wr_upgrade])"
proof -
  from assms obtain r0 rs' where rs: "rs = r0 # rs'" "length rs' = k - 1"
    by (cases rs) auto
  from u_lock_first [OF assms(5,6,1), of b r0]
  obtain s1 where s1: "u_lock b self r0 s = Inr s1" "writer s1 = self"
    "recursive s1 = RECURSIVE_U" "lock s1 = lock s @ [Srw_u_lock]"
    by blast
  have d1: "u_depth (recursive s1) = 1" "x_depth (recursive s1) = 0"
    by (simp_all add: s1(3) depth_RECURSIVE_U)
  have "u_depth (recursive s1) + length rs' \<le> 65535"
    using assms(2,3) rs(2) d1 by simp
  from run_u_lock_recursive [OF s1(2) _ this, of b] d1
  obtain s2 where s2: "run b (map (Pair self) (map U_lock rs')) s1 = Inr s2" "writer s2 = self"
    "u_depth (recursive s2) = k" "x_depth (recursive s2) = 0" "lock s2 = lock s1"
    using rs(2) assms(2) by auto
  from u_x_upgrade_pure_U [OF s2(2,4), of b r] s2(3) assms(2)
  obtain s3 where s3: "u_x_upgrade b self r s2 = Inr s3" "writer s3 = self"
    "recursive s3 = recursive s2 div RECURSIVE_U" "lock s3 = lock s2 @ [Srw_u_wr_upgrade]"
    by auto
  have d3: "x_depth (recursive s3) = k" "u_depth (recursive s3) = 0"
    using depths_div_U [of "recursive s2"] s2(3) s3(3) by simp_all
  from run_x_unlock [OF s3(2) assms(1) d3(2), of j b] assms(7) d3(1)
  obtain s4 where s4: "run b (replicate j (self, X_unlock False)) s3 = Inr s4"
    "u_depth (recursive s4) = 0" "x_depth (recursive s4) = k - j"
    "if 0 < j \<and> j = k then writer s4 = 0 \<and> lock s4 = lock s3 @ [Srw_wr_unlock]
     else writer s4 = self \<and> lock s4 = lock s3"
    by auto
  have "run b (map (Pair self)
            (map U_lock rs @ U_x_upgrade r # replicate j (X_unlock False))) s = Inr s4"
    using s1(1) s2(1) s3(1) s4(1) by (simp add: rs(1) run_append map_replicate)
  then show ?thesis
    using s4(2,3,4) s1(4) s2(5) s3(4) assms(2) by (auto split: if_splits)
qed

lemma x_chain:
  assumes "self \<noteq> 0" "1 \<le> n" "n \<le> 65535" "length rs = n" "writer s = 0" "recursive s = 0"
  shows "\<exists>s'. run b (map (Pair self)
            (map (X_lock False) rs @ replicate n (X_unlock False))) s = Inr s' \<and>
    recursive s' = 0 \<and> writer s' = 0 \<and> lock s' = lock s @ [Srw_wr_lock, Srw_wr_unlock]"
proof -
  from assms obtain r0 rs' where rs: "rs = r0 # rs'" "length rs' = n - 1"
    by (cases rs) auto
  from x_lock_first [OF assms(5,6,1), of b r0]
  obtain s1 where s1: "x_lock b self False r0 s = Inr s1" "writer s1 = self"
    "recursive s1 = RECURSIVE_X" "lock s1 = lock s @ [Srw_wr_lock]"
    by blast
  have d1: "u_depth (recursive s1) = 0" "x_depth (recursive s1) = 1"
    by (simp_all add: s1(3) depth_RECURSIVE_X)
  have "x_depth (recursive s1) + length rs' \<le> 65535"
    using assms(2,3) rs(2) d1 by simp
  from run_x_lock_recursive [OF s1(2) _ this, of b] d1
  obtain s2 where s2: "run b (map (Pair self) (map (X_lock False) rs')) s1 = Inr s2"
    "writer s2 = self" "x_depth (recursive s2) = n" "u_depth (recursive s2) = 0"
    "lock s2 = lock s1"
    using rs(2) assms(2) by auto
  from run_x_unlock [OF s2(2) assms(1) s2(4), of n b] s2(3)
  obtain s3 where s3: "run b (replicate n (self, X_unlock False)) s2 = Inr s3"
    "u_depth (recursive s3) = 0" "x_depth (recursive s3) = 0"
    "writer s3 = 0" "lock s3 = lock s2 @ [Srw_wr_unlock]"
    using assms(2) by auto
  have "run b (map (Pair self)
            (map (X_lock False) rs @ replicate n (X_unlock False))) s = Inr s3"
    using s1(1) s2(1) s3(1) by (simp add: rs(1) run_append map_replicate)
  then show ?thesis
    using s3 s1(4) s2(5) by (auto simp: recursive_0_depths)
qed

lemma run_debug_build_readers:
  assumes "run debug_build cs s = Inr t"
  shows "run b cs (s\<lparr>readers := (if univ_debug b then readers s else r0)\<rparr>) =
    Inr (t\<lparr>readers := (if univ_debug b then readers t else r0)\<rparr>)"
  using assms
proof (induction cs arbitrary: s)
  case Nil
  then show ?case by simp
next
  case (Cons a cs)
  obtain self c where a: "a = (self, c)"
    by (cases a)
  from Cons.prems obtain s1 where s1: "exec debug_build self c s = Inr s1"
    "run debug_build cs s1 = Inr t"
    by (auto simp: a seq_Inr_iff)
  show ?case
    using exec_debug_build_readers [OF s1(1), of b r0] Cons.IH [OF s1(2)] by (simp add: a)
qed

lemma run_debug_owner_inv:
  assumes "\<forall>(self, c) \<in> set cs. self \<noteq> 0" "owner_inv s" "run debug_build cs s = Inr t"
  shows "owner_inv t"
  using assms
proof (induction cs arbitrary: s)
  case Nil
  then show ?case by simp
next
  case (Cons a cs)
  obtain self c where a: "a = (self, c)"
    by (cases a)
  from Cons.prems obtain s1 where s1: "exec debug_build self c s = Inr s1"
    "run debug_build cs s1 = Inr t"
    by (auto simp: a seq_Inr_iff)
  have "self \<noteq> 0"
    using Cons.prems(1) by (simp add: a)
  from exec_debug_owner_inv [OF Cons.prems(2) this s1(1)] have "owner_inv s1" .
  then show ?case
    using Cons.IH [OF _ _ s1(2)] Cons.prems(1) by simp
qed

lemma run_owner_inv:
  assumes "\<forall>(self, c) \<in> set cs. self \<noteq> 0" "run debug_build cs sux_lock_init = Inr t"
  shows "\<exists>s'. run b cs sux_lock_init = Inr s' \<and> owner_inv s'"
proof -
  have i: "owner_inv sux_lock_init"
    by (simp add: owner_inv_def sux_lock_init_def)
  have t: "owner_inv t"
    using assms(1) i assms(2) by (rule run_debug_owner_inv)
  have "sux_lock_init\<lparr>readers := (if univ_debug b then readers sux_lock_init else None)\<rparr> =
      sux_lock_init"
    by (simp add: sux_lock_init_def)
  then have "run b cs sux_lock_init =
      Inr (t\<lparr>readers := (if univ_debug b then readers t else None)\<rparr>)"
    using run_debug_build_readers [OF assms(2), of b None] by simp
  moreover have "owner_inv (t\<lparr>readers := (if univ_debug b then readers t else None)\<rparr>)"
    using t by (simp add: owner_inv_iff)
  ultimately show ?thesis
    by blast
qed

section \<open>The properties of the specification\<close>

text \<open>
  C7. With \<open>x_depth = recursive mod 2^16\<close> and \<open>u_depth = recursive div 2^16\<close>: adding
  or subtracting \<open>RECURSIVE_U\<close> changes \<open>u_depth\<close> by exactly one and leaves \<open>x_depth\<close>
  unchanged, and adding or subtracting \<open>RECURSIVE_X\<close> changes \<open>x_depth\<close> by exactly one
  and leaves \<open>u_depth\<close> unchanged, whenever the depth that is incremented is below 65535
  and the depth that is decremented is at least 1.
\<close>

theorem C7_counters_never_carry:
  "(u_depth r < 65535 \<longrightarrow>
      u_depth (r + RECURSIVE_U) = u_depth r + 1 \<and> x_depth (r + RECURSIVE_U) = x_depth r) \<and>
   (1 \<le> u_depth r \<longrightarrow>
      u_depth (r - RECURSIVE_U) = u_depth r - 1 \<and> x_depth (r - RECURSIVE_U) = x_depth r) \<and>
   (x_depth r < 65535 \<longrightarrow>
      x_depth (r + RECURSIVE_X) = x_depth r + 1 \<and> u_depth (r + RECURSIVE_X) = u_depth r) \<and>
   (1 \<le> x_depth r \<longrightarrow>
      x_depth (r - RECURSIVE_X) = x_depth r - 1 \<and> u_depth (r - RECURSIVE_X) = u_depth r)"
  by (rule packed_counter_steps)

theorem C7_counters_never_carry_witness:
  "u_depth 0x20003 < 65535 \<and> 1 \<le> u_depth 0x20003 \<and>
   x_depth 0x20003 < 65535 \<and> 1 \<le> x_depth 0x20003 \<and>
   u_depth (0x20003 + RECURSIVE_U) = 3 \<and> x_depth (0x20003 + RECURSIVE_U) = 3 \<and>
   u_depth (0x20003 - RECURSIVE_U) = 1 \<and> x_depth (0x20003 - RECURSIVE_U) = 3 \<and>
   x_depth (0x20003 + RECURSIVE_X) = 4 \<and> u_depth (0x20003 + RECURSIVE_X) = 2 \<and>
   x_depth (0x20003 - RECURSIVE_X) = 2 \<and> u_depth (0x20003 - RECURSIVE_X) = 2"
proof -
  have u: "u_depth 0x20003 = 2" and x: "x_depth 0x20003 = 3"
    by (simp_all add: u_depth_def x_depth_def)
  show ?thesis
    using C7_counters_never_carry [of "0x20003"] unfolding u x by simp
qed

text \<open>
  C9. For every lock state and every calling thread the three query predicates agree:
  \<open>have_u_not_x\<close> and \<open>have_x\<close> are never both true, \<open>have_u_or_x\<close> is true exactly when
  one of them is, and all three are false when the calling thread is not the value stored
  in \<open>writer\<close>. Under \<open>UNIV_DEBUG\<close> the three of them fail the same assertion, and only
  when the caller is the recorded writer of a lock with \<open>recursive = 0\<close>.
\<close>

theorem C9_queries_consistent:
  "((\<exists>a u x. have_u_or_x b self s = Inr a \<and> have_u_not_x b self s = Inr u \<and>
        have_x b self s = Inr x \<and> \<not> (u \<and> x) \<and> (a \<longleftrightarrow> u \<or> x)) \<or>
    (univ_debug b \<and> self = writer s \<and> recursive s = 0 \<and>
     have_u_or_x b self s = Inl Assertion_failure \<and>
     have_u_not_x b self s = Inl Assertion_failure \<and>
     have_x b self s = Inl Assertion_failure)) \<and>
   (self \<noteq> writer s \<longrightarrow>
      have_u_or_x b self s = Inr False \<and> have_u_not_x b self s = Inr False \<and>
      have_x b self s = Inr False)"
  by (auto simp: have_u_or_x_def have_u_not_x_def have_x_def ut_ad_def)

theorem C9_queries_consistent_witness:
  "(1 :: os_thread_id_t) \<noteq> writer (sux_lock_init\<lparr>writer := FOR_IO, recursive := RECURSIVE_X\<rparr>) \<and>
   have_u_or_x debug_build 1 (sux_lock_init\<lparr>writer := FOR_IO, recursive := RECURSIVE_X\<rparr>) = Inr False \<and>
   have_u_not_x debug_build 1 (sux_lock_init\<lparr>writer := FOR_IO, recursive := RECURSIVE_X\<rparr>) = Inr False \<and>
   have_x debug_build 1 (sux_lock_init\<lparr>writer := FOR_IO, recursive := RECURSIVE_X\<rparr>) = Inr False"
  using C9_queries_consistent
    [of debug_build 1 "sux_lock_init\<lparr>writer := FOR_IO, recursive := RECURSIVE_X\<rparr>"]
  by (simp add: FOR_IO_def)

text \<open>
  C5. A call of \<open>u_unlock\<close> or \<open>x_unlock\<close> by the owning thread, with the depth of that
  mode at least 1, decrements that depth by exactly one and leaves the other depth as it
  was. When the resulting \<open>recursive\<close> is zero, \<open>writer\<close> is set to 0 and the matching
  release (\<open>u_unlock\<close> for U, \<open>wr_unlock\<close> for X) is called on the underlying lock;
  otherwise \<open>writer\<close> and the underlying lock are unchanged. \<open>waits\<close> and the reader
  registry are never touched.
\<close>

theorem C5_unlock_effect:
  assumes "writer s = self" "self \<noteq> 0"
  shows "(1 \<le> u_depth (recursive s) \<longrightarrow>
      (\<exists>s'. u_unlock b self cl s = Inr s' \<and>
         u_depth (recursive s') = u_depth (recursive s) - 1 \<and>
         x_depth (recursive s') = x_depth (recursive s) \<and>
         (if recursive s' = 0 then writer s' = 0 \<and> lock s' = lock s @ [Srw_u_unlock]
          else writer s' = writer s \<and> lock s' = lock s) \<and>
         waits s' = waits s \<and> readers s' = readers s)) \<and>
    (1 \<le> x_depth (recursive s) \<longrightarrow>
      (\<exists>s'. x_unlock b self cl s = Inr s' \<and>
         x_depth (recursive s') = x_depth (recursive s) - 1 \<and>
         u_depth (recursive s') = u_depth (recursive s) \<and>
         (if recursive s' = 0 then writer s' = 0 \<and> lock s' = lock s @ [Srw_wr_unlock]
          else writer s' = writer s \<and> lock s' = lock s) \<and>
         waits s' = waits s \<and> readers s' = readers s))"
proof (intro conjI impI)
  assume h: "1 \<le> u_depth (recursive s)"
  then have "rec_depth True (recursive s) \<noteq> 0"
    by (simp add: rec_depth_U_0)
  from u_or_x_unlock_owner [OF assms this, of b cl]
  have "u_unlock b self cl s = Inr (if recursive s = RECURSIVE_U
         then (s\<lparr>recursive := 0, writer := 0, lock := lock s @ [Srw_u_unlock]\<rparr>)
         else s\<lparr>recursive := recursive s - RECURSIVE_U\<rparr>)"
    by (simp add: u_unlock_def recursive_step_def)
  moreover have "recursive s = RECURSIVE_U \<Longrightarrow> recursive s - RECURSIVE_U = 0"
    by simp
  ultimately show "\<exists>s'. u_unlock b self cl s = Inr s' \<and>
         u_depth (recursive s') = u_depth (recursive s) - 1 \<and>
         x_depth (recursive s') = x_depth (recursive s) \<and>
         (if recursive s' = 0 then writer s' = 0 \<and> lock s' = lock s @ [Srw_u_unlock]
          else writer s' = writer s \<and> lock s' = lock s) \<and>
         waits s' = waits s \<and> readers s' = readers s"
    using packed_counter_steps [of "recursive s"] h
    by (cases "recursive s = RECURSIVE_U") auto
next
  assume h: "1 \<le> x_depth (recursive s)"
  then have "rec_depth False (recursive s) \<noteq> 0"
    by (simp add: rec_depth_X_0)
  from u_or_x_unlock_owner [OF assms this, of b cl]
  have "x_unlock b self cl s = Inr (if recursive s = RECURSIVE_X
         then (s\<lparr>recursive := 0, writer := 0, lock := lock s @ [Srw_wr_unlock]\<rparr>)
         else s\<lparr>recursive := recursive s - RECURSIVE_X\<rparr>)"
    by (simp add: x_unlock_def recursive_step_def)
  moreover have "recursive s = RECURSIVE_X \<Longrightarrow> recursive s - RECURSIVE_X = 0"
    by simp
  ultimately show "\<exists>s'. x_unlock b self cl s = Inr s' \<and>
         x_depth (recursive s') = x_depth (recursive s) - 1 \<and>
         u_depth (recursive s') = u_depth (recursive s) \<and>
         (if recursive s' = 0 then writer s' = 0 \<and> lock s' = lock s @ [Srw_wr_unlock]
          else writer s' = writer s \<and> lock s' = lock s) \<and>
         waits s' = waits s \<and> readers s' = readers s"
    using packed_counter_steps [of "recursive s"] h
    by (cases "recursive s = RECURSIVE_X") auto
qed

theorem C5_unlock_effect_witness:
  "writer u_held = 1 \<and> (1 :: os_thread_id_t) \<noteq> 0 \<and> 1 \<le> u_depth (recursive u_held) \<and>
   (\<exists>s'. u_unlock debug_build 1 False u_held = Inr s' \<and>
         recursive s' = 0 \<and> writer s' = 0 \<and> lock s' = [Srw_u_lock, Srw_u_unlock])"
proof -
  have "recursive u_held = RECURSIVE_U" "writer u_held = 1" "lock u_held = [Srw_u_lock]"
    by (simp_all add: u_held_def RECURSIVE_U_eq)
  then show ?thesis
    using C5_unlock_effect [of u_held 1 debug_build False]
    by (auto simp: depth_RECURSIVE_U recursive_0_depths)
qed

text \<open>
  C6. \<open>u_lock_try(for_io)\<close> called by the recorded writer returns false and changes
  nothing when \<open>for_io\<close> holds, and otherwise returns true after adding \<open>RECURSIVE_U\<close> to
  \<open>recursive\<close>, which is one more U level below the maximum depth, without a call on the
  underlying lock. Called by another thread it returns what the underlying
  \<open>u_lock_try\<close> returned: on failure nothing but that call has happened, on success
  \<open>recursive = RECURSIVE_U\<close> and \<open>writer\<close> is \<open>FOR_IO\<close> if \<open>for_io\<close> and the caller
  otherwise. The hypotheses on the build are the assertions on these paths.
\<close>

theorem C6_u_lock_try:
  "(writer s = self \<longrightarrow> u_lock_try b self True acquired s = Inr (False, s)) \<and>
   (writer s = self \<and> (univ_debug b \<longrightarrow> recursive s \<noteq> 0 \<and> u_depth (recursive s) < 65535) \<longrightarrow>
      u_lock_try b self False acquired s = Inr (True, s\<lparr>recursive := recursive s + RECURSIVE_U\<rparr>) \<and>
      (u_depth (recursive s) < 65535 \<longrightarrow>
         u_depth (recursive s + RECURSIVE_U) = u_depth (recursive s) + 1 \<and>
         x_depth (recursive s + RECURSIVE_U) = x_depth (recursive s))) \<and>
   (writer s \<noteq> self \<longrightarrow>
      u_lock_try b self for_io False s = Inr (False, s\<lparr>lock := lock s @ [Srw_u_lock_try]\<rparr>)) \<and>
   (writer s \<noteq> self \<and> (univ_debug b \<longrightarrow> recursive s = 0) \<and> (dbug b \<longrightarrow> writer s = 0) \<longrightarrow>
      u_lock_try b self for_io True s =
        Inr (True, s\<lparr>lock := lock s @ [Srw_u_lock_try], recursive := RECURSIVE_U,
                      writer := (if for_io then FOR_IO else self)\<rparr>))"
proof (intro conjI impI)
  show "writer s = self \<Longrightarrow> u_lock_try b self True acquired s = Inr (False, s)"
    by (simp add: u_lock_try_def)
  show "writer s \<noteq> self \<Longrightarrow>
      u_lock_try b self for_io False s = Inr (False, s\<lparr>lock := lock s @ [Srw_u_lock_try]\<rparr>)"
    by (simp add: u_lock_try_def srw_def)
  show "writer s \<noteq> self \<and> (univ_debug b \<longrightarrow> recursive s = 0) \<and> (dbug b \<longrightarrow> writer s = 0) \<Longrightarrow>
      u_lock_try b self for_io True s =
        Inr (True, s\<lparr>lock := lock s @ [Srw_u_lock_try], recursive := RECURSIVE_U,
                      writer := (if for_io then FOR_IO else self)\<rparr>)"
    by (simp add: u_lock_try_def base_defs)
next
  assume "writer s = self \<and> (univ_debug b \<longrightarrow> recursive s \<noteq> 0 \<and> u_depth (recursive s) < 65535)"
  then show "u_lock_try b self False acquired s =
      Inr (True, s\<lparr>recursive := recursive s + RECURSIVE_U\<rparr>)"
    by (simp add: u_lock_try_def writer_recurse_U)
next
  assume "u_depth (recursive s) < 65535"
  then show "u_depth (recursive s + RECURSIVE_U) = u_depth (recursive s) + 1"
    "x_depth (recursive s + RECURSIVE_U) = x_depth (recursive s)"
    using packed_counter_steps [of "recursive s"] by simp_all
qed

theorem C6_u_lock_try_witness:
  "writer u_held = 1 \<and> recursive u_held \<noteq> 0 \<and> u_depth (recursive u_held) < 65535 \<and>
   u_lock_try debug_build 1 True True u_held = Inr (False, u_held) \<and>
   u_lock_try debug_build 1 False True u_held = Inr (True, u_held\<lparr>recursive := 0x20000\<rparr>) \<and>
   u_depth (recursive u_held + RECURSIVE_U) = 2 \<and>
   writer sux_lock_init \<noteq> 1 \<and> recursive sux_lock_init = 0 \<and> writer sux_lock_init = 0 \<and>
   u_lock_try debug_build 1 True False sux_lock_init =
     Inr (False, sux_lock_init\<lparr>lock := [Srw_u_lock_try]\<rparr>) \<and>
   u_lock_try debug_build 1 True True sux_lock_init =
     Inr (True, sux_lock_init\<lparr>lock := [Srw_u_lock_try], recursive := 0x10000, writer := FOR_IO\<rparr>)"
proof -
  have u: "recursive u_held = RECURSIVE_U" "writer u_held = 1"
    and i: "recursive sux_lock_init = 0" "writer sux_lock_init = 0" "lock sux_lock_init = []"
    by (simp_all add: u_held_def sux_lock_init_def RECURSIVE_U_eq)
  show ?thesis
    using C6_u_lock_try [where s = u_held and self = 1 and b = debug_build and acquired = True]
      C6_u_lock_try [where s = sux_lock_init and self = 1 and b = debug_build and for_io = True]
    by (simp add: u i depth_RECURSIVE_U) (simp add: RECURSIVE_U_eq)
qed

text \<open>
  C2. \<open>x_lock_upgraded\<close> has three cases. (a) The caller is the recorded writer and
  \<open>recursive & RECURSIVE_MAX\<close> is not zero: \<open>RECURSIVE_X\<close> is added to \<open>recursive\<close>, one
  more X level below the maximum depth, nothing else changes, and the result is false.
  (b) The caller is the recorded writer and the X depth is zero: \<open>u_wr_upgrade\<close> is called
  on the underlying lock, \<open>recursive\<close> is divided by \<open>RECURSIVE_U\<close>, so that the U depth
  becomes the X depth, and the result is true. (c) The caller is not the recorded writer:
  \<open>wr_lock\<close> is called on the underlying lock, \<open>recursive = RECURSIVE_X\<close>, \<open>writer\<close> is the
  caller, and the result is false. The hypotheses on the build are the assertions on
  these paths.
\<close>

theorem C2_x_lock_upgraded:
  "(writer s = self \<and> 0 < x_depth (recursive s) \<and>
      (univ_debug b \<longrightarrow> x_depth (recursive s) < 65535) \<longrightarrow>
      x_lock_upgraded b self s = Inr (False, s\<lparr>recursive := recursive s + RECURSIVE_X\<rparr>) \<and>
      (x_depth (recursive s) < 65535 \<longrightarrow>
         x_depth (recursive s + RECURSIVE_X) = x_depth (recursive s) + 1 \<and>
         u_depth (recursive s + RECURSIVE_X) = u_depth (recursive s))) \<and>
   (writer s = self \<and> x_depth (recursive s) = 0 \<and> (univ_debug b \<longrightarrow> recursive s \<noteq> 0) \<longrightarrow>
      x_lock_upgraded b self s =
        Inr (True, s\<lparr>lock := lock s @ [Srw_u_wr_upgrade],
                      recursive := recursive s div RECURSIVE_U\<rparr>) \<and>
      x_depth (recursive s div RECURSIVE_U) = u_depth (recursive s) \<and>
      u_depth (recursive s div RECURSIVE_U) = 0) \<and>
   (writer s \<noteq> self \<and> (univ_debug b \<longrightarrow> recursive s = 0) \<and> (dbug b \<longrightarrow> writer s = 0) \<longrightarrow>
      x_lock_upgraded b self s =
        Inr (False, s\<lparr>lock := lock s @ [Srw_wr_lock], recursive := RECURSIVE_X,
                       writer := self\<rparr>))"
proof (intro conjI impI)
  assume h: "writer s = self \<and> 0 < x_depth (recursive s) \<and>
      (univ_debug b \<longrightarrow> x_depth (recursive s) < 65535)"
  then have "recursive s \<noteq> 0"
    by (auto simp: recursive_0_depths)
  moreover from h have "recursive s AND RECURSIVE_MAX \<noteq> 0"
    by (simp add: x_bits_0)
  ultimately show "x_lock_upgraded b self s =
      Inr (False, s\<lparr>recursive := recursive s + RECURSIVE_X\<rparr>)"
    using h by (simp add: x_lock_upgraded_def writer_recurse_X ut_ad_def)
next
  assume "x_depth (recursive s) < 65535"
  then show "x_depth (recursive s + RECURSIVE_X) = x_depth (recursive s) + 1"
    "u_depth (recursive s + RECURSIVE_X) = u_depth (recursive s)"
    using packed_counter_steps [of "recursive s"] by simp_all
next
  assume h: "writer s = self \<and> x_depth (recursive s) = 0 \<and> (univ_debug b \<longrightarrow> recursive s \<noteq> 0)"
  then have "recursive s AND RECURSIVE_MAX = 0"
    by (simp add: x_bits_0)
  then show "x_lock_upgraded b self s =
        Inr (True, s\<lparr>lock := lock s @ [Srw_u_wr_upgrade],
                      recursive := recursive s div RECURSIVE_U\<rparr>)"
    using h by (simp add: x_lock_upgraded_def base_defs)
  show "x_depth (recursive s div RECURSIVE_U) = u_depth (recursive s)"
    "u_depth (recursive s div RECURSIVE_U) = 0"
    by (simp_all add: depths_div_U)
next
  assume "writer s \<noteq> self \<and> (univ_debug b \<longrightarrow> recursive s = 0) \<and> (dbug b \<longrightarrow> writer s = 0)"
  then show "x_lock_upgraded b self s =
        Inr (False, s\<lparr>lock := lock s @ [Srw_wr_lock], recursive := RECURSIVE_X,
                       writer := self\<rparr>)"
    by (simp add: x_lock_upgraded_def base_defs)
qed

theorem C2_x_lock_upgraded_witness:
  "writer x_held = 1 \<and> 0 < x_depth (recursive x_held) \<and> x_depth (recursive x_held) < 65535 \<and>
   x_lock_upgraded debug_build 1 x_held = Inr (False, x_held\<lparr>recursive := 2\<rparr>) \<and>
   writer u_held = 1 \<and> x_depth (recursive u_held) = 0 \<and> recursive u_held \<noteq> 0 \<and>
   x_lock_upgraded debug_build 1 u_held =
     Inr (True, u_held\<lparr>lock := [Srw_u_lock, Srw_u_wr_upgrade], recursive := 1\<rparr>) \<and>
   writer sux_lock_init \<noteq> 1 \<and> recursive sux_lock_init = 0 \<and> writer sux_lock_init = 0 \<and>
   x_lock_upgraded debug_build 1 sux_lock_init =
     Inr (False, sux_lock_init\<lparr>lock := [Srw_wr_lock], recursive := 1, writer := 1\<rparr>)"
proof -
  have u: "recursive u_held = RECURSIVE_U" "writer u_held = 1" "lock u_held = [Srw_u_lock]"
    and x: "recursive x_held = RECURSIVE_X" "writer x_held = 1"
    and i: "recursive sux_lock_init = 0" "writer sux_lock_init = 0" "lock sux_lock_init = []"
    by (simp_all add: u_held_def x_held_def sux_lock_init_def RECURSIVE_U_eq RECURSIVE_X_def)
  show ?thesis
    using C2_x_lock_upgraded [of x_held 1 debug_build] C2_x_lock_upgraded [of u_held 1 debug_build]
      C2_x_lock_upgraded [of sux_lock_init 1 debug_build]
    by (simp add: u x i depth_RECURSIVE_U depth_RECURSIVE_X)
      (simp add: RECURSIVE_U_eq RECURSIVE_X_def)
qed

text \<open>
  C10. \<open>x_lock(for_io = true)\<close> by the recorded writer fails \<open>ut_ad(!for_io)\<close> under
  \<open>UNIV_DEBUG\<close>. Without \<open>UNIV_DEBUG\<close> the flag has no effect there: the call is
  \<open>x_lock(for_io = false)\<close>, it adds \<open>RECURSIVE_X\<close> to \<open>recursive\<close> (one more X level below
  the maximum depth), keeps \<open>writer\<close> and calls nothing on the underlying lock. A call by a
  thread other than the sentinel that returns with \<open>writer = FOR_IO\<close>, on a lock that did
  not have it, is \<open>x_lock(for_io = true)\<close> or a successful \<open>u_lock_try(for_io = true)\<close>, made
  by a thread that is not the recorded writer.
\<close>

theorem C10_x_lock_for_io_by_owner:
  "(writer s = self \<and> univ_debug b \<longrightarrow> x_lock b self True r s = Inl Assertion_failure) \<and>
   (writer s = self \<and> \<not> univ_debug b \<longrightarrow>
      x_lock b self True r s = x_lock b self False r s \<and>
      x_lock b self True r s = Inr (s\<lparr>recursive := recursive s + RECURSIVE_X\<rparr>) \<and>
      (x_depth (recursive s) < 65535 \<longrightarrow>
         x_depth (recursive s + RECURSIVE_X) = x_depth (recursive s) + 1 \<and>
         u_depth (recursive s + RECURSIVE_X) = u_depth (recursive s))) \<and>
   (self \<noteq> FOR_IO \<and> writer s \<noteq> FOR_IO \<and> exec b self c s = Inr s' \<and> writer s' = FOR_IO \<longrightarrow>
      writer s \<noteq> self \<and> ((\<exists>r. c = X_lock True r) \<or> c = U_lock_try True True))"
proof (intro conjI impI)
  show "writer s = self \<and> univ_debug b \<Longrightarrow> x_lock b self True r s = Inl Assertion_failure"
    by (simp add: x_lock_def ut_ad_def)
  show "writer s = self \<and> \<not> univ_debug b \<Longrightarrow> x_lock b self True r s = x_lock b self False r s"
    by (simp add: x_lock_def ut_ad_def)
  show "writer s = self \<and> \<not> univ_debug b \<Longrightarrow>
      x_lock b self True r s = Inr (s\<lparr>recursive := recursive s + RECURSIVE_X\<rparr>)"
    by (simp add: x_lock_def ut_ad_def writer_recurse_X)
  show "self \<noteq> FOR_IO \<and> writer s \<noteq> FOR_IO \<and> exec b self c s = Inr s' \<and> writer s' = FOR_IO \<Longrightarrow>
      writer s \<noteq> self"
    using sentinel_only_x_lock_u_lock_try [of self s b c s'] by simp
  show "self \<noteq> FOR_IO \<and> writer s \<noteq> FOR_IO \<and> exec b self c s = Inr s' \<and> writer s' = FOR_IO \<Longrightarrow>
      (\<exists>r. c = X_lock True r) \<or> c = U_lock_try True True"
    using sentinel_only_x_lock_u_lock_try [of self s b c s'] by simp
next
  assume "x_depth (recursive s) < 65535"
  then show "x_depth (recursive s + RECURSIVE_X) = x_depth (recursive s) + 1"
    "u_depth (recursive s + RECURSIVE_X) = u_depth (recursive s)"
    using packed_counter_steps [of "recursive s"] by simp_all
qed

theorem C10_x_lock_for_io_by_owner_witness:
  "writer x_held = 1 \<and> univ_debug debug_build \<and>
   x_lock debug_build 1 True True x_held = Inl Assertion_failure \<and>
   \<not> univ_debug release_build \<and> x_depth (recursive x_held) < 65535 \<and>
   x_lock release_build 1 True True x_held = Inr (x_held\<lparr>recursive := 2\<rparr>) \<and>
   x_lock release_build 1 False True x_held = Inr (x_held\<lparr>recursive := 2\<rparr>) \<and>
   x_depth (recursive x_held + RECURSIVE_X) = 2 \<and>
   (1 :: os_thread_id_t) \<noteq> FOR_IO \<and> writer sux_lock_init \<noteq> FOR_IO \<and>
   exec debug_build 1 (X_lock True True) sux_lock_init =
     Inr (sux_lock_init\<lparr>lock := [Srw_wr_lock], recursive := 1, writer := FOR_IO\<rparr>) \<and>
   writer sux_lock_init \<noteq> 1"
proof -
  have x: "recursive x_held = RECURSIVE_X" "writer x_held = 1"
    and i: "recursive sux_lock_init = 0" "writer sux_lock_init = 0" "lock sux_lock_init = []"
    and e: "exec debug_build 1 (X_lock True True) sux_lock_init =
       Inr (sux_lock_init\<lparr>lock := [Srw_wr_lock], recursive := 1, writer := FOR_IO\<rparr>)"
    by (simp_all add: x_held_def sux_lock_init_def RECURSIVE_X_def x_lock_def base_defs
        debug_build_def)
  have d: "univ_debug debug_build" "\<not> univ_debug release_build"
    by (simp_all add: debug_build_def release_build_def)
  have n: "(1 :: os_thread_id_t) \<noteq> FOR_IO" "writer sux_lock_init \<noteq> FOR_IO"
    by (simp_all add: FOR_IO_def i)
  have A: "x_lock debug_build 1 True True x_held = Inl Assertion_failure"
    using C10_x_lock_for_io_by_owner
      [where s = x_held and self = 1 and b = debug_build and r = True, THEN conjunct1] x d
    by simp
  note rel = C10_x_lock_for_io_by_owner
      [where s = x_held and self = 1 and b = release_build and r = True,
        THEN conjunct2, THEN conjunct1]
  have o: "writer x_held = 1 \<and> \<not> univ_debug release_build"
    using x d by simp
  have B1: "x_lock release_build 1 True True x_held = Inr (x_held\<lparr>recursive := 2\<rparr>)"
    using rel [rule_format, OF o, THEN conjunct2, THEN conjunct1] by (simp add: x RECURSIVE_X_def)
  have B2: "x_lock release_build 1 True True x_held = x_lock release_build 1 False True x_held"
    using rel [rule_format, OF o, THEN conjunct1] .
  have B3: "x_depth (recursive x_held + RECURSIVE_X) = 2"
    using rel [rule_format, OF o, THEN conjunct2, THEN conjunct2] by (simp add: x depth_RECURSIVE_X)
  have C: "writer sux_lock_init \<noteq> 1"
    using C10_x_lock_for_io_by_owner
      [where s = sux_lock_init and self = 1 and b = debug_build and c = "X_lock True True"
        and s' = "sux_lock_init\<lparr>lock := [Srw_wr_lock], recursive := 1, writer := FOR_IO\<rparr>",
        THEN conjunct2, THEN conjunct2]
      n e
    by simp
  have B4: "x_lock release_build 1 False True x_held = Inr (x_held\<lparr>recursive := 2\<rparr>)"
    using B1 B2 by simp
  show ?thesis
    using A B1 B3 B4 C d n e x by (simp add: depth_RECURSIVE_X)
qed




text \<open>
  C3. The invariant \<open>recursive > 0 \<Leftrightarrow> writer != 0\<close> is preserved by every call of the
  public interface that meets the assertions of the operation, made by a thread whose
  identifier is not 0: in whatever build, the call returns and the invariant holds again.
  A call that takes \<open>recursive\<close> from 0 to a nonzero value takes \<open>writer\<close> from 0 to a
  nonzero value, and \<open>u_or_x_unlock\<close> clears \<open>writer\<close> exactly when its decrement makes
  \<open>recursive\<close> zero. Hence the invariant holds after every schedule of such calls on a
  lock that starts zero-initialised.
\<close>

theorem C3_owner_inv_preserved:
  "(owner_inv s \<and> self \<noteq> 0 \<and> exec debug_build self c s = Inr t \<longrightarrow>
      (\<exists>s'. exec b self c s = Inr s' \<and> owner_inv s' \<and>
         (recursive s = 0 \<and> recursive s' \<noteq> 0 \<longrightarrow> writer s = 0 \<and> writer s' \<noteq> 0))) \<and>
   (\<forall>ar cl u. u_or_x_unlock b self ar cl s = Inr u \<longrightarrow>
      recursive u = recursive s - recursive_step ar \<and>
      (recursive u = 0 \<longrightarrow> writer u = 0) \<and> (recursive u \<noteq> 0 \<longrightarrow> writer u = writer s)) \<and>
   ((\<forall>(self, c) \<in> set cs. self \<noteq> 0) \<and> run debug_build cs sux_lock_init = Inr tr \<longrightarrow>
      (\<exists>s'. run b cs sux_lock_init = Inr s' \<and> owner_inv s'))"
proof (intro conjI allI impI)
  assume h: "owner_inv s \<and> self \<noteq> 0 \<and> exec debug_build self c s = Inr t"
  then have t: "owner_inv t"
    using exec_debug_owner_inv [of s self c t] by simp
  let ?s' = "t\<lparr>readers := (if univ_debug b then readers t else readers s)\<rparr>"
  have e: "exec b self c s = Inr ?s'"
    using h exec_debug_build [of self c s t b] by simp
  have "owner_inv ?s'"
    using t by (simp add: owner_inv_iff)
  moreover have "recursive s = 0 \<and> recursive ?s' \<noteq> 0 \<longrightarrow> writer s = 0 \<and> writer ?s' \<noteq> 0"
    using t h by (simp add: owner_inv_iff)
  ultimately show "\<exists>s'. exec b self c s = Inr s' \<and> owner_inv s' \<and>
           (recursive s = 0 \<and> recursive s' \<noteq> 0 \<longrightarrow> writer s = 0 \<and> writer s' \<noteq> 0)"
    using e by blast
next
  fix ar cl u
  assume "u_or_x_unlock b self ar cl s = Inr u"
  then show "recursive u = recursive s - recursive_step ar"
    "recursive u = 0 \<Longrightarrow> writer u = 0" "recursive u \<noteq> 0 \<Longrightarrow> writer u = writer s"
    using u_or_x_unlock_writer [of b self ar cl s u] by simp_all
next
  assume "(\<forall>(self, c) \<in> set cs. self \<noteq> 0) \<and> run debug_build cs sux_lock_init = Inr tr"
  then show "\<exists>s'. run b cs sux_lock_init = Inr s' \<and> owner_inv s'"
    using run_owner_inv [of cs tr b] by simp
qed

theorem C3_owner_inv_preserved_witness:
  "owner_inv sux_lock_init \<and> (1 :: os_thread_id_t) \<noteq> 0 \<and>
   exec debug_build 1 (U_lock True) sux_lock_init =
     Inr (sux_lock_init\<lparr>lock := [Srw_u_lock], recursive := 0x10000, writer := 1\<rparr>) \<and>
   (\<exists>s'. exec release_build 1 (U_lock True) sux_lock_init = Inr s' \<and> owner_inv s')"
proof -
  have i: "owner_inv sux_lock_init"
    by (simp add: owner_inv_def sux_lock_init_def)
  have e: "exec debug_build 1 (U_lock True) sux_lock_init =
     Inr (sux_lock_init\<lparr>lock := [Srw_u_lock], recursive := 0x10000, writer := 1\<rparr>)"
    by (simp add: u_lock_def base_defs debug_build_def sux_lock_init_def RECURSIVE_U_eq)
  have n: "(1 :: os_thread_id_t) \<noteq> 0"
    by simp
  have "\<exists>s'. exec release_build 1 (U_lock True) sux_lock_init = Inr s' \<and> owner_inv s'"
    using C3_owner_inv_preserved
      [where s = sux_lock_init and self = 1 and c = "U_lock True" and b = release_build
        and t = "sux_lock_init\<lparr>lock := [Srw_u_lock], recursive := 0x10000, writer := 1\<rparr>",
        THEN conjunct1, rule_format] i n e
    by blast
  then show ?thesis
    using i n e by simp
qed

text \<open>
  C1. For every thread (identifier not 0) and every \<open>k\<close> with \<open>1 \<le> k \<le> 65535\<close>, on a
  free lock (\<open>writer = 0\<close>, \<open>recursive = 0\<close>), in every build and whatever the underlying
  lock returns: \<open>u_lock()\<close> \<open>k\<close> times, \<open>u_x_upgrade()\<close> once and \<open>x_unlock()\<close> \<open>k\<close> times
  return with \<open>recursive = 0\<close> and \<open>writer = 0\<close>, having called on the underlying lock
  \<open>u_lock\<close>, \<open>u_wr_upgrade\<close> and \<open>wr_unlock\<close>, once each. After fewer than \<open>k\<close> calls of
  \<open>x_unlock\<close> the thread is still the writer and nothing has been released.
\<close>

theorem C1_u_upgrade_x_unlock:
  assumes "self \<noteq> 0" "1 \<le> k" "k \<le> 65535" "length rs = k" "writer s = 0" "recursive s = 0"
  shows "(\<exists>s'. run b (map (Pair self)
              (map U_lock rs @ U_x_upgrade r # replicate k (X_unlock False))) s = Inr s' \<and>
            recursive s' = 0 \<and> writer s' = 0 \<and>
            lock s' = lock s @ [Srw_u_lock, Srw_u_wr_upgrade, Srw_wr_unlock]) \<and>
         (\<forall>j<k. \<exists>s'. run b (map (Pair self)
              (map U_lock rs @ U_x_upgrade r # replicate j (X_unlock False))) s = Inr s' \<and>
            writer s' = self \<and> x_depth (recursive s') = k - j \<and>
            lock s' = lock s @ [Srw_u_lock, Srw_u_wr_upgrade])"
proof (intro conjI allI impI)
  show "\<exists>s'. run b (map (Pair self)
              (map U_lock rs @ U_x_upgrade r # replicate k (X_unlock False))) s = Inr s' \<and>
            recursive s' = 0 \<and> writer s' = 0 \<and>
            lock s' = lock s @ [Srw_u_lock, Srw_u_wr_upgrade, Srw_wr_unlock]"
    using u_chain [OF assms, of k b r] by (auto simp: recursive_0_depths)
next
  fix j
  assume "j < k"
  then show "\<exists>s'. run b (map (Pair self)
              (map U_lock rs @ U_x_upgrade r # replicate j (X_unlock False))) s = Inr s' \<and>
            writer s' = self \<and> x_depth (recursive s') = k - j \<and>
            lock s' = lock s @ [Srw_u_lock, Srw_u_wr_upgrade]"
    using u_chain [OF assms, of j b r] by auto
qed

theorem C1_u_upgrade_x_unlock_witness:
  "(1 :: os_thread_id_t) \<noteq> 0 \<and> (1 :: nat) \<le> 2 \<and> (2 :: nat) \<le> 65535 \<and>
   length [True, False] = 2 \<and> writer sux_lock_init = 0 \<and> recursive sux_lock_init = 0 \<and>
   (\<exists>s'. run debug_build
        [(1, U_lock True), (1, U_lock False), (1, U_x_upgrade True),
         (1, X_unlock False), (1, X_unlock False)] sux_lock_init = Inr s' \<and>
      recursive s' = 0 \<and> writer s' = 0 \<and>
      lock s' = [Srw_u_lock, Srw_u_wr_upgrade, Srw_wr_unlock])"
proof -
  have i: "writer sux_lock_init = 0" "recursive sux_lock_init = 0" "lock sux_lock_init = []"
    by (simp_all add: sux_lock_init_def)
  have r: "replicate 2 (X_unlock False) = [X_unlock False, X_unlock False]"
    by (simp add: numeral_2_eq_2)
  show ?thesis
    using C1_u_upgrade_x_unlock
      [of 1 2 "[True, False]" sux_lock_init debug_build True, THEN conjunct1]
    by (simp add: i r)
qed

text \<open>
  C4. For every thread (identifier not 0) and every \<open>n\<close> with \<open>1 \<le> n \<le> 65535\<close>, on a
  free lock, in every build and whatever the underlying lock returns: \<open>x_lock()\<close> \<open>n\<close> times
  and then \<open>x_unlock()\<close> \<open>n\<close> times return with \<open>recursive = 0\<close> and \<open>writer = 0\<close>, having
  called on the underlying lock \<open>wr_lock\<close> once and \<open>wr_unlock\<close> once.
\<close>

theorem C4_x_lock_x_unlock:
  assumes "self \<noteq> 0" "1 \<le> n" "n \<le> 65535" "length rs = n" "writer s = 0" "recursive s = 0"
  shows "\<exists>s'. run b (map (Pair self)
            (map (X_lock False) rs @ replicate n (X_unlock False))) s = Inr s' \<and>
    recursive s' = 0 \<and> writer s' = 0 \<and> lock s' = lock s @ [Srw_wr_lock, Srw_wr_unlock]"
  using assms by (rule x_chain)

theorem C4_x_lock_x_unlock_witness:
  "(1 :: os_thread_id_t) \<noteq> 0 \<and> (1 :: nat) \<le> 3 \<and> (3 :: nat) \<le> 65535 \<and>
   length [False, True, True] = 3 \<and> writer sux_lock_init = 0 \<and> recursive sux_lock_init = 0 \<and>
   (\<exists>s'. run debug_build
        [(1, X_lock False False), (1, X_lock False True), (1, X_lock False True),
         (1, X_unlock False), (1, X_unlock False), (1, X_unlock False)] sux_lock_init = Inr s' \<and>
      recursive s' = 0 \<and> writer s' = 0 \<and> lock s' = [Srw_wr_lock, Srw_wr_unlock])"
proof -
  have i: "writer sux_lock_init = 0" "recursive sux_lock_init = 0" "lock sux_lock_init = []"
    by (simp_all add: sux_lock_init_def)
  have r: "replicate 3 (X_unlock False) = [X_unlock False, X_unlock False, X_unlock False]"
    by (simp add: numeral_3_eq_3)
  show ?thesis
    using C4_x_lock_x_unlock [of 1 3 "[False, True, True]" sux_lock_init debug_build]
    by (simp add: i r)
qed

end
